theory Spec2Isabelle
  imports Main "HOL-Library.Word"
begin

section \<open>Strings, errors and library functions\<close>

text \<open>
  A Go string is modelled by the sequence of its code points, one \<^typ>\<open>char\<close> per code
  point (code points below 256). The formatting verbs and regular expressions of the
  source count and match code points, so widths and patterns are read on this sequence.
\<close>

datatype error =
    UnknownUnit
  | UnknownFormat
  | DelayMismatch
  | ErrSyntax
  | ErrRange
  | EOF
  | ReadError
  | MarshalError
  | MakesliceLenOutOfRange
  | Deadlock

definition is_digit :: "char \<Rightarrow> bool" where
  "is_digit c = (c \<in> set ''0123456789'')"

definition digit_val :: "char \<Rightarrow> nat" where
  "digit_val c = of_char c - 48"

text \<open>The accumulation loop of a decimal conversion: \<open>n = n*10 + (ch - '0')\<close>.\<close>

fun decimal :: "nat \<Rightarrow> string \<Rightarrow> nat" where
  "decimal n [] = n"
| "decimal n (c # cs) = decimal (n * 10 + digit_val c) cs"

text \<open>
  \<open>strconv.Atoi\<close> of the Go library, for a 64-bit \<open>int\<close>: an optional sign, then at
  least one decimal digit and nothing else; a syntax error otherwise, a range error when
  the value does not fit.
\<close>

definition Atoi :: "string \<Rightarrow> error + int" where
  "Atoi s =
     (let signed = (s \<noteq> [] \<and> (hd s = CHR ''-'' \<or> hd s = CHR ''+''));
          ds = (if signed then tl s else s)
      in if ds = [] \<or> \<not> list_all is_digit ds then Inl ErrSyntax
         else let n = (if s \<noteq> [] \<and> hd s = CHR ''-'' then - int (decimal 0 ds)
                       else int (decimal 0 ds))
              in if n < - (2 ^ 63) \<or> 2 ^ 63 \<le> n then Inl ErrRange else Inr n)"

section \<open>Entitlements and delays (package holdings)\<close>

text \<open>\<open>time.Duration\<close> is a signed 64-bit count of nanoseconds; its arithmetic wraps.\<close>

type_synonym Duration = "64 word"

definition Hour :: Duration where
  "Hour = 3600 * 1000000000"

definition Day :: Duration where
  "Day = 24 * Hour"

definition Month :: Duration where
  "Month = 30 * Day"

definition Year :: Duration where
  "Year = 12 * Month"

text \<open>
  \<open>delayPattern.FindStringSubmatch\<close> for the pattern \<^verbatim>\<open>^(-\d+)(M|Y)$\<close>: the empty list
  when the string does not match, otherwise the whole match followed by the two groups.
  The pattern is anchored at both ends, so the unit is the last character and everything
  between the minus sign and the unit is the digit group.
\<close>

definition delayPattern :: "string \<Rightarrow> string list" where
  "delayPattern s =
     (case s of
        [] \<Rightarrow> []
      | c # rest \<Rightarrow>
          if c = CHR ''-'' \<and> rest \<noteq> [] \<and> butlast rest \<noteq> [] \<and> list_all is_digit (butlast rest)
             \<and> (last rest = CHR ''M'' \<or> last rest = CHR ''Y'')
          then [s, c # butlast rest, [last rest]]
          else [])"

definition ParseDelay :: "string \<Rightarrow> error + Duration" where
  "ParseDelay s =
     (let ms = delayPattern s
      in if length ms \<noteq> 3 then Inl UnknownFormat
         else case Atoi (ms ! 1) of
                Inl e \<Rightarrow> Inl e
              | Inr v \<Rightarrow>
                  if ms ! 2 = ''Y'' then Inr (word_of_int v * Year)
                  else if ms ! 2 = ''M'' then Inr (word_of_int v * Month)
                  else Inl UnknownUnit)"

record Entitlement =
  Status :: string
  URL :: string
  Anchor :: string
  FromYear :: string
  FromVolume :: string
  FromIssue :: string
  FromDelay :: string
  ToYear :: string
  ToVolume :: string
  ToIssue :: string
  ToDelay :: string

text \<open>\<open>Entitlement.Delay\<close> as it is where \<open>errDelayMismatch\<close> is declared.\<close>

definition Delay :: "Entitlement \<Rightarrow> error + Duration" where
  "Delay e =
     (if FromDelay e \<noteq> [] \<and> ToDelay e \<noteq> [] \<and> FromDelay e \<noteq> ToDelay e then Inl DelayMismatch
      else if FromDelay e \<noteq> [] then ParseDelay (FromDelay e)
      else if ToDelay e \<noteq> [] then ParseDelay (ToDelay e)
      else Inr 0)"

text \<open>
  The older copy of the package (\<^verbatim>\<open>src/holdings/ovid.go\<close>) has no \<open>errDelayMismatch\<close>:
  its \<open>Delay\<close> goes straight to the start delay. (The year, volume and issue fields are
  integers there; \<open>Delay\<close> reads none of them.)
\<close>

definition Delay_ovid :: "Entitlement \<Rightarrow> error + Duration" where
  "Delay_ovid e =
     (if FromDelay e \<noteq> [] then ParseDelay (FromDelay e)
      else if ToDelay e \<noteq> [] then ParseDelay (ToDelay e)
      else Inr 0)"

text \<open>
  The delay strings of the specification, \<^verbatim>\<open>-<integer><M|Y>\<close>: \<open>s\<close> is a minus sign, the
  digits \<open>ds\<close> (at least one) and the unit \<open>u\<close>. A month is 30 days and a year 360 days,
  in nanoseconds.
\<close>

definition delay_string :: "string \<Rightarrow> string \<Rightarrow> char \<Rightarrow> bool" where
  "delay_string s ds u =
     (s = CHR ''-'' # ds @ [u] \<and> ds \<noteq> [] \<and> list_all is_digit ds \<and> (u = CHR ''M'' \<or> u = CHR ''Y''))"

definition unit_ns :: "char \<Rightarrow> int" where
  "unit_ns u = (if u = CHR ''M'' then 30 else 360) * 86400000000000"

text \<open>
  \<open>fmt.Sprintf\<close> with the verb \<^verbatim>\<open>%0Ns\<close>: the width is a minimum, counted in code points,
  and the zero flag pads on the left with the character 0; a string at least as wide as
  the width is written unchanged.
\<close>

definition writePadding :: "int \<Rightarrow> string" where
  "writePadding n = (if n \<le> 0 then [] else replicate (nat n) CHR ''0'')"

definition padString :: "int \<Rightarrow> string \<Rightarrow> string" where
  "padString wid s = writePadding (wid - int (length s)) @ s"

definition CombineDatum :: "string \<Rightarrow> string \<Rightarrow> string \<Rightarrow> string \<Rightarrow> string" where
  "CombineDatum y v i emp =
     (if y = [] \<and> v = [] \<and> i = [] \<and> emp \<noteq> [] then emp
      else padString 4 y @ padString 6 v @ padString 6 i)"

text \<open>
  Go compares strings byte by byte; a proper prefix is smaller. (The order of the UTF-8
  bytes is the order of the code points.)
\<close>

fun string_less :: "string \<Rightarrow> string \<Rightarrow> bool" where
  "string_less [] [] = False"
| "string_less [] (b # bs) = True"
| "string_less (a # as) [] = False"
| "string_less (a # as) (b # bs) =
     ((of_char a :: nat) < of_char b \<or> (a = b \<and> string_less as bs))"

text \<open>The order on (year, volume, issue) read as numbers: year first, then volume, then issue.\<close>

definition datum_less :: "nat \<times> nat \<times> nat \<Rightarrow> nat \<times> nat \<times> nat \<Rightarrow> bool" where
  "datum_less a b =
     (case a of (y1, v1, i1) \<Rightarrow> case b of (y2, v2, i2) \<Rightarrow>
        y1 < y2 \<or> (y1 = y2 \<and> (v1 < v2 \<or> (v1 = v2 \<and> i1 < i2))))"

text \<open>Zero-padding to a width as the specification words it.\<close>

definition zero_pad :: "nat \<Rightarrow> string \<Rightarrow> string" where
  "zero_pad w s = replicate (w - length s) CHR ''0'' @ s"

section \<open>Holdings index\<close>

record Holding =
  EZBID :: int
  Title :: string
  Publishers :: string
  PISSN :: "string list"
  EISSN :: "string list"
  Entitlements :: "Entitlement list"

type_synonym IssnHolding = "string \<rightharpoonup> Holding"

text \<open>\<open>unicode.IsSpace\<close> on the code points below 256, and \<open>strings.TrimSpace\<close>.\<close>

definition IsSpace :: "char \<Rightarrow> bool" where
  "IsSpace c = ((of_char c :: nat) \<in> {9, 10, 11, 12, 13, 32, 133, 160})"

definition TrimSpace :: "string \<Rightarrow> string" where
  "TrimSpace s = rev (dropWhile IsSpace (rev (dropWhile IsSpace s)))"

text \<open>\<open>ISSNPattern.MatchString\<close> for the pattern \<^verbatim>\<open>^\d\d\d\d-\d\d\d\d$\<close>.\<close>

definition ISSNPattern :: "string \<Rightarrow> bool" where
  "ISSNPattern s =
     (case s of
        [a, b, c, d, h, e, f, g, k] \<Rightarrow>
          is_digit a \<and> is_digit b \<and> is_digit c \<and> is_digit d \<and> h = CHR ''-''
          \<and> is_digit e \<and> is_digit f \<and> is_digit g \<and> is_digit k
      | _ \<Rightarrow> False)"

text \<open>
  The XML decoder is a library. Its token stream, as the loop of \<open>HoldingsMap\<close> sees it, is
  a list: a start element carries its local name and the value that \<open>DecodeElement\<close>
  stores in \<open>item\<close> for it (the tokens \<open>DecodeElement\<close> consumes are not in the list);
  every other kind of token is \<open>OtherToken\<close>. The list ends where \<open>Token\<close> returns nil.
\<close>

datatype Token = StartElement string Holding | OtherToken

text \<open>One of the two inner loops: register \<open>item\<close> under every well-formed identifier.\<close>

fun register :: "Holding \<Rightarrow> string list \<Rightarrow> IssnHolding \<Rightarrow> IssnHolding" where
  "register item [] h = h"
| "register item (x # ids) h =
     (let tid = TrimSpace x
      in if ISSNPattern tid then register item ids (h(tid \<mapsto> item))
         else register item ids h)"

fun HoldingsMap_loop :: "Token list \<Rightarrow> IssnHolding \<Rightarrow> IssnHolding" where
  "HoldingsMap_loop [] h = h"
| "HoldingsMap_loop (StartElement tag item # ts) h =
     (if tag = ''holding''
      then HoldingsMap_loop ts (register item (PISSN item) (register item (EISSN item) h))
      else HoldingsMap_loop ts h)"
| "HoldingsMap_loop (OtherToken # ts) h = HoldingsMap_loop ts h"

definition HoldingsMap :: "Token list \<Rightarrow> IssnHolding" where
  "HoldingsMap reader = HoldingsMap_loop reader Map.empty"

text \<open>The holdings of a token stream in document order, and the keys one holding asks for.\<close>

fun holdings_of :: "Token list \<Rightarrow> Holding list" where
  "holdings_of [] = []"
| "holdings_of (StartElement tag item # ts) =
     (if tag = ''holding'' then item # holdings_of ts else holdings_of ts)"
| "holdings_of (OtherToken # ts) = holdings_of ts"

definition valid_issns :: "Holding \<Rightarrow> string list" where
  "valid_issns item = filter ISSNPattern (map TrimSpace (EISSN item @ PISSN item))"

definition last_listing :: "string \<Rightarrow> Holding list \<Rightarrow> Holding option" where
  "last_listing tid hs =
     (case filter (\<lambda>item. tid \<in> set (valid_issns item)) hs of
        [] \<Rightarrow> None
      | x # xs \<Rightarrow> Some (last (x # xs)))"

section \<open>Filters and the ISIL tagger (package span)\<close>

text \<open>
  Modelled from the spec: \<open>finc.IntermediateSchema\<close> is not among the sources. The
  specification gives it an ISSN list, an e-ISSN list, a publication date, a volume, an
  issue and a source identifier; \<open>Date_Year\<close> is what \<open>is.Date.Year()\<close> returns.
\<close>

record IntermediateSchema =
  ISSN :: "string list"
  EISSN :: "string list"
  Date_Year :: int
  Volume :: string
  Issue :: string
  SourceID :: string

text \<open>
  Modelled from the spec: \<open>container.StringSet\<close> is not among the sources. The
  specification calls it a deduplicated, unordered collection: it is kept as a list
  without repetitions, and the theorems use only the set of its values and their
  distinctness, never their order.
\<close>

type_synonym StringSet = "string list"

definition NewStringSet :: StringSet where
  "NewStringSet = []"

definition Add :: "StringSet \<Rightarrow> string \<Rightarrow> StringSet" where
  "Add s x = (if x \<in> set s then s else s @ [x])"

definition Contains :: "StringSet \<Rightarrow> string \<Rightarrow> bool" where
  "Contains s x = (x \<in> set s)"

definition Values :: "StringSet \<Rightarrow> string list" where
  "Values s = s"

text \<open>\<open>fmt.Sprintf("%d", n)\<close>: the decimal digits of \<open>n\<close>, after a minus sign when negative.\<close>

function decimal_digits :: "nat \<Rightarrow> string" where
  "decimal_digits n =
     (if n < 10 then [char_of (48 + n)]
      else decimal_digits (n div 10) @ [char_of (48 + n mod 10)])"
  by pat_completeness auto
termination
  by (relation "measure id") auto

definition Sprintf_d :: "int \<Rightarrow> string" where
  "Sprintf_d n = (if n < 0 then CHR ''-'' # decimal_digits (nat (- n)) else decimal_digits (nat n))"

text \<open>
  A point in time is a number (of nanoseconds); \<open>t.After(u)\<close> is \<open>u < t\<close>. The methods
  \<open>Covers\<close> and \<open>Wall\<close> of a license are not among the sources: they are the parameters
  \<open>covers\<close> and \<open>wall\<close> of everything that evaluates a holdings filter.
\<close>

definition After :: "int \<Rightarrow> int \<Rightarrow> bool" where
  "After t u = (u < t)"

record 'l HoldingFilter =
  Ref :: int
  Table :: "string \<rightharpoonup> 'l list"

fun CoveredAndValid_loop ::
  "('l \<Rightarrow> string \<Rightarrow> bool) \<Rightarrow> ('l \<Rightarrow> int \<Rightarrow> int) \<Rightarrow> int \<Rightarrow> string \<Rightarrow> 'l list \<Rightarrow> bool" where
  "CoveredAndValid_loop covers wall ref signature [] = False"
| "CoveredAndValid_loop covers wall ref signature (license # ls) =
     (if \<not> covers license signature then CoveredAndValid_loop covers wall ref signature ls
      else if After ref (wall license ref) then True
      else CoveredAndValid_loop covers wall ref signature ls)"

definition CoveredAndValid ::
  "('l \<Rightarrow> string \<Rightarrow> bool) \<Rightarrow> ('l \<Rightarrow> int \<Rightarrow> int) \<Rightarrow> 'l HoldingFilter \<Rightarrow> string \<Rightarrow> string \<Rightarrow> bool" where
  "CoveredAndValid covers wall f signature issn =
     (case Table f issn of
        None \<Rightarrow> False
      | Some licenses \<Rightarrow> CoveredAndValid_loop covers wall (Ref f) signature licenses)"

definition HoldingFilter_Apply ::
  "('l \<Rightarrow> string \<Rightarrow> bool) \<Rightarrow> ('l \<Rightarrow> int \<Rightarrow> int) \<Rightarrow> 'l HoldingFilter \<Rightarrow> IntermediateSchema \<Rightarrow> bool" where
  "HoldingFilter_Apply covers wall f is =
     (let signature = CombineDatum (Sprintf_d (Date_Year is)) (Volume is) (Issue is) []
      in list_ex (CoveredAndValid covers wall f signature) (ISSN is @ EISSN is))"

definition ListFilter_Apply :: "StringSet \<Rightarrow> IntermediateSchema \<Rightarrow> bool" where
  "ListFilter_Apply st is = list_ex (Contains st) (ISSN is @ EISSN is)"

text \<open>The implementations of the interface \<open>Filter\<close>, and the dispatch of \<open>Apply\<close>.\<close>

datatype 'l Filter =
    Any
  | SourceFilter string
  | HoldingFilter "'l HoldingFilter"
  | ListFilter StringSet

fun Apply ::
  "('l \<Rightarrow> string \<Rightarrow> bool) \<Rightarrow> ('l \<Rightarrow> int \<Rightarrow> int) \<Rightarrow> 'l Filter \<Rightarrow> IntermediateSchema \<Rightarrow> bool" where
  "Apply covers wall Any is = True"
| "Apply covers wall (SourceFilter sid) is = (SourceID is = sid)"
| "Apply covers wall (HoldingFilter f) is = HoldingFilter_Apply covers wall f is"
| "Apply covers wall (ListFilter st) is = ListFilter_Apply st is"

text \<open>
  An \<open>ISILTagger\<close> is a Go map; \<open>range\<close> visits its entries in an order of its own
  choosing. The model takes the entries in the order they are visited, one entry per key.
\<close>

type_synonym 'l ISILTagger = "(string \<times> 'l Filter list) list"

fun Tags_filters :: "('f \<Rightarrow> bool) \<Rightarrow> string \<Rightarrow> 'f list \<Rightarrow> StringSet \<Rightarrow> StringSet" where
  "Tags_filters ap isil [] isils = isils"
| "Tags_filters ap isil (f # fs) isils =
     Tags_filters ap isil fs (if ap f then Add isils isil else isils)"

fun Tags_loop :: "('f \<Rightarrow> bool) \<Rightarrow> (string \<times> 'f list) list \<Rightarrow> StringSet \<Rightarrow> StringSet" where
  "Tags_loop ap [] isils = isils"
| "Tags_loop ap ((isil, filters) # t) isils = Tags_loop ap t (Tags_filters ap isil filters isils)"

definition Tags ::
  "('l \<Rightarrow> string \<Rightarrow> bool) \<Rightarrow> ('l \<Rightarrow> int \<Rightarrow> int) \<Rightarrow> 'l ISILTagger \<Rightarrow> IntermediateSchema \<Rightarrow> string list" where
  "Tags covers wall t is = Values (Tags_loop (\<lambda>f. Apply covers wall f is) t NewStringSet)"

section \<open>Reading lines\<close>

text \<open>
  A \<open>bufio.Reader\<close> over a file: the characters still to be read, and the error the file
  returns once they are used up (\<open>EOF\<close>, or a read failure). \<open>ReadString\<close> with the
  delimiter \<open>\n\<close> returns the characters through the first line feed; where there is
  none, it returns what is left together with the error.
\<close>

record Reader =
  content :: string
  ending :: error

fun split_line :: "string \<Rightarrow> (string \<times> string) option" where
  "split_line [] = None"
| "split_line (c # cs) =
     (if c = CHR 0x0A then Some ([c], cs)
      else case split_line cs of
             None \<Rightarrow> None
           | Some (l, rest) \<Rightarrow> Some (c # l, rest))"

definition ReadString :: "Reader \<Rightarrow> string \<times> error option \<times> Reader" where
  "ReadString r =
     (case split_line (content r) of
        Some (l, rest) \<Rightarrow> (l, None, r\<lparr>content := rest\<rparr>)
      | None \<Rightarrow> (content r, Some (ending r), r\<lparr>content := []\<rparr>))"




section \<open>Batch pipeline (command span-import)\<close>

record 'h Options =
  Holdings :: 'h
  IgnoreErrors :: bool
  Verbose :: bool
  NumWorkers :: int
  BatchSize :: int

text \<open>
  The reader loop of \<open>BatchedLDJProcessor\<close>: the counter \<open>i\<close>, the batch being filled and
  the batches handed off so far, each with the contents it has when it is sent. The
  result is the list of batches sent on the channel and the error returned, if any.
\<close>

function read_loop ::
  "int \<Rightarrow> Reader \<Rightarrow> int \<Rightarrow> string list \<Rightarrow> string list list \<Rightarrow> string list list \<times> error option" where
  "read_loop B r i batch sent =
     (case ReadString r of
        (line, err, r') \<Rightarrow>
          if err = Some EOF then (sent @ [batch], None)
          else if err \<noteq> None then (sent, err)
          else if i = B then read_loop B r' 2 [] (sent @ [batch @ [line]])
          else read_loop B r' (i + 1) (batch @ [line]) sent)"
  by pat_completeness auto
termination
proof (relation "measure (\<lambda>(B, r, i, batch, sent). length (content r))")
  have shorter: "split_line s = Some (l, rest) \<Longrightarrow> length rest < length s" for s l rest
    by (induction s arbitrary: l) (auto split: if_splits option.splits)
  show "wf (measure (\<lambda>(B, r, i, batch, sent). length (content r)))"
    by simp
  show "((B, r', 2, [], sent @ [batch @ [line]]), (B, r, i, batch, sent))
          \<in> measure (\<lambda>(B, r, i, batch, sent). length (content r))"
    if "(line, x2) = ReadString r" "(err, r') = x2" "err \<noteq> Some EOF" "\<not> err \<noteq> None"
    for B r i batch sent line x2 err r'
    using that shorter by (auto simp: ReadString_def split: option.splits)
  show "((B, r', i + 1, batch @ [line], sent), (B, r, i, batch, sent))
          \<in> measure (\<lambda>(B, r, i, batch, sent). length (content r))"
    if "(line, x2) = ReadString r" "(err, r') = x2" "err \<noteq> Some EOF" "\<not> err \<noteq> None"
    for B r i batch sent line x2 err r'
    using that shorter by (auto simp: ReadString_def split: option.splits)
qed

declare read_loop.simps [simp del]

text \<open>
  \<open>make([]string, options.BatchSize)\<close> gives a slice of that length, every element the
  empty string (and panics on a negative length); \<open>append\<close> adds behind them.
\<close>

definition reader_batches :: "'h Options \<Rightarrow> Reader \<Rightarrow> string list list \<times> error option" where
  "reader_batches options r =
     (if BatchSize options < 0 then ([], Some MakesliceLenOutOfRange)
      else read_loop (BatchSize options) r 1 (replicate (nat (BatchSize options)) []) [])"

text \<open>
  The same loop on slices as Go has them. A slice is a pointer to an array, a length and
  a capacity. \<open>append\<close> writes into the array when capacity is left; otherwise it copies
  the elements into a new array, whose capacity the runtime chooses (\<open>grow\<close>, and at least
  the length needed). \<open>batch[:0]\<close> keeps the pointer and the capacity. Beside every slice
  handed off, the loop records what the slice holds at that moment.
\<close>

record Slice =
  ptr :: nat
  len :: nat
  cap :: nat

record Heap =
  arrays :: "nat \<Rightarrow> string list"
  fresh :: nat

definition make_slice :: "nat \<Rightarrow> Heap \<Rightarrow> Slice \<times> Heap" where
  "make_slice n h =
     (\<lparr>ptr = fresh h, len = n, cap = n\<rparr>,
      \<lparr>arrays = (arrays h)(fresh h := replicate n []), fresh = fresh h + 1\<rparr>)"

definition append_slice :: "(nat \<Rightarrow> nat) \<Rightarrow> Slice \<Rightarrow> string \<Rightarrow> Heap \<Rightarrow> Slice \<times> Heap" where
  "append_slice grow s x h =
     (if len s < cap s
      then (s\<lparr>len := len s + 1\<rparr>,
            h\<lparr>arrays := (arrays h)(ptr s := (arrays h (ptr s))[len s := x])\<rparr>)
      else let c = max (grow (cap s)) (len s + 1)
           in (\<lparr>ptr = fresh h, len = len s + 1, cap = c\<rparr>,
               \<lparr>arrays = (arrays h)(fresh h :=
                   take (len s) (arrays h (ptr s)) @ [x] @ replicate (c - len s - 1) []),
                fresh = fresh h + 1\<rparr>))"

definition view :: "Heap \<Rightarrow> Slice \<Rightarrow> string list" where
  "view h s = take (len s) (arrays h (ptr s))"

function read_loop_store ::
  "(nat \<Rightarrow> nat) \<Rightarrow> int \<Rightarrow> Reader \<Rightarrow> int \<Rightarrow> Slice \<Rightarrow> Heap \<Rightarrow> (Slice \<times> string list) list
     \<Rightarrow> (Slice \<times> string list) list \<times> Heap \<times> error option" where
  "read_loop_store grow B r i batch h sent =
     (case ReadString r of
        (line, err, r') \<Rightarrow>
          if err = Some EOF then (sent @ [(batch, view h batch)], h, None)
          else if err \<noteq> None then (sent, h, err)
          else case append_slice grow batch line h of
                 (batch', h') \<Rightarrow>
                   if i = B
                   then read_loop_store grow B r' 2 (batch'\<lparr>len := 0\<rparr>) h'
                          (sent @ [(batch', view h' batch')])
                   else read_loop_store grow B r' (i + 1) batch' h' sent)"
  by pat_completeness auto
termination
proof (relation "measure (\<lambda>(grow, B, r, i, batch, h, sent). length (content r))")
  have shorter: "split_line s = Some (l, rest) \<Longrightarrow> length rest < length s" for s l rest
    by (induction s arbitrary: l) (auto split: if_splits option.splits)
  show "wf (measure (\<lambda>(grow, B, r, i, batch, h, sent). length (content r)))"
    by simp
  show "((grow, B, r', 2, batch'\<lparr>len := 0\<rparr>, h', sent @ [(batch', view h' batch')]),
         (grow, B, r, i, batch, h, sent))
          \<in> measure (\<lambda>(grow, B, r, i, batch, h, sent). length (content r))"
    if "(line, x2) = ReadString r" "(err, r') = x2" "err \<noteq> Some EOF" "\<not> err \<noteq> None"
    for grow B r i batch h sent line x2 err r' batch' h'
    using that shorter by (auto simp: ReadString_def split: option.splits)
  show "((grow, B, r', i + 1, batch', h', sent), (grow, B, r, i, batch, h, sent))
          \<in> measure (\<lambda>(grow, B, r, i, batch, h, sent). length (content r))"
    if "(line, x2) = ReadString r" "(err, r') = x2" "err \<noteq> Some EOF" "\<not> err \<noteq> None"
    for grow B r i batch h sent line x2 err r' batch' h'
    using that shorter by (auto simp: ReadString_def split: option.splits)
qed

declare read_loop_store.simps [simp del]

definition reader_store ::
  "(nat \<Rightarrow> nat) \<Rightarrow> nat \<Rightarrow> Reader \<Rightarrow> (Slice \<times> string list) list \<times> Heap \<times> error option" where
  "reader_store grow B r =
     (case make_slice B \<lparr>arrays = (\<lambda>p. []), fresh = 0\<rparr> of
        (batch, h) \<Rightarrow> read_loop_store grow (int B) r 1 batch h [])"

definition late_views :: "(Slice \<times> string list) list \<times> Heap \<times> error option \<Rightarrow> string list list" where
  "late_views res = (case res of (sent, h, err) \<Rightarrow> map (\<lambda>(s, seen). view h s) sent)"

definition sent_views :: "(Slice \<times> string list) list \<times> Heap \<times> error option \<Rightarrow> string list list" where
  "sent_views res = (case res of (sent, h, err) \<Rightarrow> map snd sent)"

text \<open>The invariant of a slice in a heap: its array has the length of its capacity.\<close>

definition slice_ok :: "Heap \<Rightarrow> Slice \<Rightarrow> bool" where
  "slice_ok h s = (len s \<le> cap s \<and> length (arrays h (ptr s)) = cap s)"

text \<open>
  What the worker calls and the sources do not contain: decoding a line into a document
  (the error of \<open>json.Unmarshal\<close> is dropped), \<open>ToSolrSchema\<close> with its error as a flag,
  \<open>Institutions\<close>, \<open>SetTags\<close> and \<open>json.Marshal\<close>.
\<close>

record ('d, 's, 'h) Collaborators =
  Unmarshal :: "string \<Rightarrow> 'd"
  ToSolrSchema :: "'d \<Rightarrow> 's \<times> bool"
  Institutions :: "'d \<Rightarrow> 'h \<Rightarrow> string list"
  SetTags :: "'s \<Rightarrow> string list \<Rightarrow> 's"
  Marshal :: "'s \<Rightarrow> error + string"

text \<open>The body of the worker's inner loop: the records one line puts on the channel.\<close>

definition worker_line ::
  "('d, 's, 'h) Collaborators \<Rightarrow> 'h Options \<Rightarrow> string \<Rightarrow> error + string list" where
  "worker_line X options line =
     (let doc = Unmarshal X line;
          (schema, failed) = ToSolrSchema X doc
      in if failed \<and> IgnoreErrors options then Inr []
         else case Marshal X (SetTags X schema (Institutions X doc (Holdings options))) of
                Inl e \<Rightarrow> Inl e
              | Inr b \<Rightarrow> Inr [b])"

fun BatchedLDJWorker ::
  "('d, 's, 'h) Collaborators \<Rightarrow> 'h Options \<Rightarrow> string list \<Rightarrow> error + string list" where
  "BatchedLDJWorker X options [] = Inr []"
| "BatchedLDJWorker X options (line # batch) =
     (case worker_line X options line of
        Inl e \<Rightarrow> Inl e
      | Inr out \<Rightarrow>
          (case BatchedLDJWorker X options batch of
             Inl e \<Rightarrow> Inl e
           | Inr outs \<Rightarrow> Inr (out @ outs)))"

definition ByteSliceCollector :: "string list \<Rightarrow> string" where
  "ByteSliceCollector docs = concat (map (\<lambda>b. b @ [CHR 0x0A]) docs)"

text \<open>
  The run as a whole, for the schedule in which the batches are worked off one after the
  other in the order they were sent, each read at once, as it is when sent. (Another
  schedule moves records in the output; and a worker that reads its batch late finds
  what the reader has written into the array since.) Without a worker the first send
  never completes. The result is what is written to standard output, or the error that
  ends the run.
\<close>

definition BatchedLDJProcessor ::
  "('d, 's, 'h) Collaborators \<Rightarrow> 'h Options \<Rightarrow> Reader \<Rightarrow> error + string" where
  "BatchedLDJProcessor X options r =
     (case reader_batches options r of
        (sent, err) \<Rightarrow>
          if sent \<noteq> [] \<and> NumWorkers options \<le> 0 then Inl Deadlock
          else case err of
                 Some e \<Rightarrow> Inl e
               | None \<Rightarrow>
                   (case BatchedLDJWorker X options (concat sent) of
                      Inl e \<Rightarrow> Inl e
                    | Inr docs \<Rightarrow> Inr (ByteSliceCollector docs)))"

text \<open>
  The lines of an input as the specification counts them for the sequential reference:
  each run of characters through a line feed, in order. \<open>sequential\<close> puts every one of
  them through the body of the worker and writes the records out.
\<close>

fun lines_from :: "string \<Rightarrow> string \<Rightarrow> string list" where
  "lines_from cur [] = []"
| "lines_from cur (c # cs) =
     (if c = CHR 0x0A then (cur @ [c]) # lines_from [] cs else lines_from (cur @ [c]) cs)"

definition input_lines :: "string \<Rightarrow> string list" where
  "input_lines s = lines_from [] s"

definition sequential ::
  "('d, 's, 'h) Collaborators \<Rightarrow> 'h Options \<Rightarrow> string \<Rightarrow> error + string" where
  "sequential X options s =
     (case BatchedLDJWorker X options (input_lines s) of
        Inl e \<Rightarrow> Inl e
      | Inr docs \<Rightarrow> Inr (ByteSliceCollector docs))"

section \<open>Properties of the delay functions\<close>





text \<open>The older copy differs from \<open>Delay\<close> on the mismatching entitlements only.\<close>

lemma Delay_ovid_eq:
  "Delay_ovid e =
     (if FromDelay e \<noteq> [] \<and> ToDelay e \<noteq> [] \<and> FromDelay e \<noteq> ToDelay e
      then ParseDelay (FromDelay e) else Delay e)"
  by (simp add: Delay_ovid_def Delay_def)

lemma delayPattern_match:
  "delay_string s ds u \<Longrightarrow> delayPattern s = [s, CHR ''-'' # ds, [u]]"
  by (auto simp: delay_string_def delayPattern_def)

lemma delayPattern_cases:
  "delayPattern s = [] \<or> (\<exists>ds u. delay_string s ds u)"
proof (cases s)
  case Nil
  then show ?thesis by (simp add: delayPattern_def)
next
  case (Cons c rest)
  show ?thesis
  proof (cases "delayPattern s = []")
    case True
    then show ?thesis by simp
  next
    case False
    with Cons have h: "c = CHR ''-''" "rest \<noteq> []" "butlast rest \<noteq> []"
      "list_all is_digit (butlast rest)" "last rest = CHR ''M'' \<or> last rest = CHR ''Y''"
      by (auto simp: delayPattern_def split: if_splits)
    from h(2) have "rest = butlast rest @ [last rest]" by simp
    with Cons h have "delay_string s (butlast rest) (last rest)"
      by (simp add: delay_string_def)
    then show ?thesis by blast
  qed
qed

lemma delayPattern_no_match:
  "\<forall>ds u. \<not> delay_string s ds u \<Longrightarrow> delayPattern s = []"
  using delayPattern_cases [of s] by blast

lemma Atoi_negative:
  "ds \<noteq> [] \<Longrightarrow> list_all is_digit ds \<Longrightarrow>
   Atoi (CHR ''-'' # ds) =
     (if 2 ^ 63 < int (decimal 0 ds) then Inl ErrRange else Inr (- int (decimal 0 ds)))"
  by (auto simp: Atoi_def Let_def)

lemma Year_ns: "Year = word_of_int (unit_ns CHR ''Y'')"
  by (simp add: Year_def Month_def Day_def Hour_def unit_ns_def)

lemma Month_ns: "Month = word_of_int (unit_ns CHR ''M'')"
  by (simp add: Month_def Day_def Hour_def unit_ns_def)

lemma ParseDelay_match:
  assumes "delay_string s ds u"
  shows "ParseDelay s =
           (if 2 ^ 63 < int (decimal 0 ds) then Inl ErrRange
            else Inr (word_of_int (- int (decimal 0 ds) * unit_ns u)))"
proof -
  from assms have ds: "ds \<noteq> []" "list_all is_digit ds" and u: "u = CHR ''M'' \<or> u = CHR ''Y''"
    by (simp_all add: delay_string_def)
  have ms: "delayPattern s = [s, CHR ''-'' # ds, [u]]"
    by (rule delayPattern_match [OF assms])
  show ?thesis
    using u by (auto simp: ParseDelay_def ms Atoi_negative [OF ds] Year_ns Month_ns)
qed

lemma unit_ns_pos: "0 < unit_ns u"
  by (simp add: unit_ns_def)

lemma sint_in_range:
  "- (2 ^ 63) \<le> x \<Longrightarrow> x < 2 ^ 63 \<Longrightarrow> sint (word_of_int x :: 64 word) = x"
  by (simp add: int_word_sint)

lemma sint_fits:
  assumes "0 \<le> n" "n * unit_ns u \<le> 2 ^ 63"
  shows "sint (word_of_int (- n * unit_ns u) :: 64 word) = - n * unit_ns u"
proof (rule sint_in_range)
  show "- (2 ^ 63) \<le> - n * unit_ns u" using assms(2) by simp
  have "0 \<le> n * unit_ns u" using assms(1) unit_ns_pos [of u] by simp
  then have "- n * unit_ns u \<le> 0" by simp
  also have "(0::int) < 2 ^ 63" by simp
  finally show "- n * unit_ns u < 2 ^ 63" .
qed

text \<open>
  C7, as the claim has it, fails on a long delay: 300 years of 360 days are more
  nanoseconds than a 64-bit duration holds, and the product wraps to a positive value.
\<close>

theorem ParseDelay_overflow_counterexample:
  "map_sum id sint (ParseDelay ''-300Y'') \<noteq> Inr (- 300 * unit_ns CHR ''Y'')"
  by (simp add: ParseDelay_def delayPattern_def is_digit_def Atoi_def digit_val_def
      Year_def Month_def Day_def Hour_def unit_ns_def)

text \<open>
  C7, amended. For a delay string \<^verbatim>\<open>-<integer><M|Y>\<close> with the integer \<open>-n\<close>:
  when \<open>n\<close> times the unit (30 days for M, 360 days for Y) is at most \<open>2^63\<close> nanoseconds,
  \<open>ParseDelay\<close> returns the duration \<open>-n\<close> times the unit; when \<open>n\<close> is at most \<open>2^63\<close> it
  returns that product reduced to 64 bits; when \<open>n\<close> is larger it fails with the range
  error of \<open>Atoi\<close>. For a string that is no delay string it fails with \<open>UnknownFormat\<close>.
  It never fails with \<open>UnknownUnit\<close>.
\<close>

theorem ParseDelay_amended:
  "(delay_string s ds u \<and> int (decimal 0 ds) * unit_ns u \<le> 2 ^ 63 \<longrightarrow>
      map_sum id sint (ParseDelay s) = Inr (- int (decimal 0 ds) * unit_ns u))
   \<and> (delay_string s ds u \<and> int (decimal 0 ds) \<le> 2 ^ 63 \<longrightarrow>
      ParseDelay s = Inr (word_of_int (- int (decimal 0 ds) * unit_ns u)))
   \<and> (delay_string s ds u \<and> 2 ^ 63 < int (decimal 0 ds) \<longrightarrow> ParseDelay s = Inl ErrRange)
   \<and> ((\<forall>ds u. \<not> delay_string s ds u) \<longrightarrow> ParseDelay s = Inl UnknownFormat)
   \<and> ParseDelay s \<noteq> Inl UnknownUnit"
proof (intro conjI impI)
  assume h: "delay_string s ds u \<and> int (decimal 0 ds) * unit_ns u \<le> 2 ^ 63"
  have "1 \<le> unit_ns u" using unit_ns_pos [of u] by simp
  then have "int (decimal 0 ds) * 1 \<le> int (decimal 0 ds) * unit_ns u"
    by (intro mult_left_mono) simp_all
  with h have "\<not> 2 ^ 63 < int (decimal 0 ds)" by simp
  with h have "ParseDelay s = Inr (word_of_int (- int (decimal 0 ds) * unit_ns u))"
    using ParseDelay_match [of s ds u] by (simp only: if_False)
  then have "map_sum id sint (ParseDelay s)
               = Inr (sint (word_of_int (- int (decimal 0 ds) * unit_ns u) :: 64 word))"
    by (simp only: map_sum.simps id_apply)
  also have "sint (word_of_int (- int (decimal 0 ds) * unit_ns u) :: 64 word)
               = - int (decimal 0 ds) * unit_ns u"
    using h by (intro sint_fits) simp_all
  finally show "map_sum id sint (ParseDelay s) = Inr (- int (decimal 0 ds) * unit_ns u)" .
next
  assume h: "delay_string s ds u \<and> int (decimal 0 ds) \<le> 2 ^ 63"
  then have "\<not> 2 ^ 63 < int (decimal 0 ds)" by simp
  with h show "ParseDelay s = Inr (word_of_int (- int (decimal 0 ds) * unit_ns u))"
    using ParseDelay_match [of s ds u] by (simp only: if_False)
next
  assume h: "delay_string s ds u \<and> 2 ^ 63 < int (decimal 0 ds)"
  then show "ParseDelay s = Inl ErrRange"
    using ParseDelay_match [of s ds u] by (simp only: if_True)
next
  assume "\<forall>ds u. \<not> delay_string s ds u"
  then show "ParseDelay s = Inl UnknownFormat"
    by (simp add: ParseDelay_def delayPattern_no_match)
next
  show "ParseDelay s \<noteq> Inl UnknownUnit"
  proof (cases "\<exists>ds u. delay_string s ds u")
    case True
    then obtain ds u where "delay_string s ds u" by blast
    then show ?thesis using ParseDelay_match [of s ds u] by (simp split: if_splits)
  next
    case False
    then show ?thesis by (simp add: ParseDelay_def delayPattern_no_match)
  qed
qed

theorem ParseDelay_amended_witness:
  "map_sum id sint (ParseDelay ''-3Y'') = Inr (- 93312000000000000)
   \<and> map_sum id sint (ParseDelay ''-12M'') = Inr (- 31104000000000000)
   \<and> ParseDelay ''3Y'' = Inl UnknownFormat
   \<and> ParseDelay ''-99999999999999999999M'' = Inl ErrRange"
proof -
  have a: "delay_string ''-3Y'' ''3'' CHR ''Y'' \<and> int (decimal 0 ''3'') * unit_ns CHR ''Y'' \<le> 2 ^ 63"
    by (simp add: delay_string_def is_digit_def digit_val_def unit_ns_def)
  have b: "delay_string ''-12M'' ''12'' CHR ''M'' \<and> int (decimal 0 ''12'') * unit_ns CHR ''M'' \<le> 2 ^ 63"
    by (simp add: delay_string_def is_digit_def digit_val_def unit_ns_def)
  have c: "\<forall>ds u. \<not> delay_string ''3Y'' ds u"
    by (simp add: delay_string_def)
  have d: "delay_string ''-99999999999999999999M'' ''99999999999999999999'' CHR ''M''
           \<and> 2 ^ 63 < int (decimal 0 ''99999999999999999999'')"
    by (simp add: delay_string_def is_digit_def digit_val_def)
  show ?thesis
    using a b c d
      ParseDelay_amended [of "''-3Y''" "''3''" "CHR ''Y''"]
      ParseDelay_amended [of "''-12M''" "''12''" "CHR ''M''"]
      ParseDelay_amended [of "''3Y''"]
      ParseDelay_amended [of "''-99999999999999999999M''" "''99999999999999999999''" "CHR ''M''"]
    by (simp add: digit_val_def unit_ns_def)
qed

section \<open>Properties of the datum\<close>

lemma padString_zero_pad: "0 \<le> w \<Longrightarrow> padString w s = zero_pad (nat w) s"
  by (auto simp: padString_def writePadding_def zero_pad_def nat_diff_distrib')

text \<open>
  C5. \<open>CombineDatum\<close> returns the sentinel when year, volume and issue are all empty and
  the sentinel is not; in every other case it returns the year zero-padded to 4, the
  volume zero-padded to 6 and the issue zero-padded to 6, concatenated.
\<close>

theorem CombineDatum_sentinel_or_padded:
  "(y = [] \<and> v = [] \<and> i = [] \<and> emp \<noteq> [] \<longrightarrow> CombineDatum y v i emp = emp)
   \<and> (\<not> (y = [] \<and> v = [] \<and> i = [] \<and> emp \<noteq> []) \<longrightarrow>
        CombineDatum y v i emp = zero_pad 4 y @ zero_pad 6 v @ zero_pad 6 i)"
  using padString_zero_pad [of 4] padString_zero_pad [of 6]
  by (simp add: CombineDatum_def)

theorem CombineDatum_sentinel_or_padded_witness:
  "CombineDatum [] [] [] ''ZZZZZZZZZZZZZZZZ'' = ''ZZZZZZZZZZZZZZZZ''
   \<and> CombineDatum ''2010'' ''10'' ''5'' [] = ''2010000010000005''
   \<and> CombineDatum [] [] [] [] = ''0000000000000000''"
  using CombineDatum_sentinel_or_padded [of "[]" "[]" "[]" "''ZZZZZZZZZZZZZZZZ''"]
        CombineDatum_sentinel_or_padded [of "''2010''" "''10''" "''5''" "[]"]
        CombineDatum_sentinel_or_padded [of "[]" "[]" "[]" "[]"]
  by (simp add: zero_pad_def eval_nat_numeral)

section \<open>Properties of the holdings index\<close>

lemma register_lookup:
  "register item ids h tid =
     (if tid \<in> set (filter ISSNPattern (map TrimSpace ids)) then Some item else h tid)"
  by (induction ids arbitrary: h) (auto simp: Let_def)

lemma last_listing_alt:
  "last_listing tid hs =
     (if filter (\<lambda>item. tid \<in> set (valid_issns item)) hs = [] then None
      else Some (last (filter (\<lambda>item. tid \<in> set (valid_issns item)) hs)))"
  by (simp add: last_listing_def split: list.splits)

lemma last_listing_Cons:
  "last_listing tid (item # hs) =
     (case last_listing tid hs of
        Some x \<Rightarrow> Some x
      | None \<Rightarrow> if tid \<in> set (valid_issns item) then Some item else None)"
  by (auto simp: last_listing_def split: list.splits)

lemma registered_item:
  "register item (PISSN item) (register item (Holding.EISSN item) h) tid =
     (if tid \<in> set (valid_issns item) then Some item else h tid)"
  by (auto simp: register_lookup valid_issns_def)

lemma HoldingsMap_loop_lookup:
  "HoldingsMap_loop ts h tid =
     (case last_listing tid (holdings_of ts) of None \<Rightarrow> h tid | Some item \<Rightarrow> Some item)"
proof (induction ts h rule: HoldingsMap_loop.induct)
  case (1 h)
  show ?case by (simp add: last_listing_def)
next
  case (2 tag item ts h)
  show ?case
  proof (cases "tag = ''holding''")
    case True
    have "HoldingsMap_loop (StartElement tag item # ts) h tid
            = HoldingsMap_loop ts (register item (PISSN item) (register item (Holding.EISSN item) h)) tid"
      using True by simp
    also have "\<dots> = (case last_listing tid (holdings_of ts) of
                        None \<Rightarrow> register item (PISSN item) (register item (Holding.EISSN item) h) tid
                      | Some x \<Rightarrow> Some x)"
      by (rule "2.IH"(1) [OF True])
    also have "\<dots> = (case last_listing tid (item # holdings_of ts) of
                        None \<Rightarrow> h tid
                      | Some x \<Rightarrow> Some x)"
      unfolding registered_item last_listing_Cons by (simp split: option.splits)
    finally show ?thesis using True by simp
  next
    case False
    then show ?thesis using "2.IH"(2) by simp
  qed
next
  case (3 ts h)
  then show ?case by simp
qed

text \<open>
  C9. \<open>HoldingsMap\<close> maps an identifier to the last holding of the document that lists
  it, among its e-ISSNs and print ISSNs, in a form that after trimming matches the ISSN
  pattern, and to nothing when no holding does. So the keys are exactly the trimmed,
  well-formed identifiers of the holdings; an identifier that fails the pattern adds no
  key and raises no error (the function has no error result); a holding that is
  followed by no other holding listing the same identifier is the one registered
  under it; and an identifier has at most one holding.
\<close>

theorem HoldingsMap_last_wins:
  "HoldingsMap reader tid = last_listing tid (holdings_of reader)
   \<and> dom (HoldingsMap reader) = (\<Union>item \<in> set (holdings_of reader). set (valid_issns item))
   \<and> (HoldingsMap reader tid = Some item \<longrightarrow>
        item \<in> set (holdings_of reader) \<and> tid \<in> set (valid_issns item))
   \<and> (reader = pre @ StartElement ''holding'' item # post
        \<and> tid \<in> set (valid_issns item)
        \<and> (\<forall>later \<in> set (holdings_of post). tid \<notin> set (valid_issns later))
        \<longrightarrow> HoldingsMap reader tid = Some item)"
proof -
  have eq: "HoldingsMap reader tid = last_listing tid (holdings_of reader)" for tid
    by (simp add: HoldingsMap_def HoldingsMap_loop_lookup split: option.splits)
  have some: "last_listing tid hs = Some item \<Longrightarrow> item \<in> set hs \<and> tid \<in> set (valid_issns item)"
    for tid hs item
  proof -
    assume a: "last_listing tid hs = Some item"
    let ?fs = "filter (\<lambda>item. tid \<in> set (valid_issns item)) hs"
    from a have ne: "?fs \<noteq> []" and l: "item = last ?fs"
      by (auto simp: last_listing_def split: list.splits)
    from ne have "last ?fs \<in> set ?fs" by (rule last_in_set)
    with l show ?thesis by simp
  qed
  have none: "last_listing tid hs = None \<longleftrightarrow> (\<forall>item \<in> set hs. tid \<notin> set (valid_issns item))"
    for tid hs
  proof -
    have "last_listing tid hs = None \<longleftrightarrow> filter (\<lambda>item. tid \<in> set (valid_issns item)) hs = []"
      by (simp add: last_listing_def split: list.splits)
    then show ?thesis by (simp add: filter_empty_conv)
  qed
  have c2: "dom (HoldingsMap reader) = (\<Union>item \<in> set (holdings_of reader). set (valid_issns item))"
  proof (intro set_eqI iffI)
    fix x assume "x \<in> dom (HoldingsMap reader)"
    then obtain item where "last_listing x (holdings_of reader) = Some item"
      by (auto simp: eq)
    from some [OF this] show "x \<in> (\<Union>item \<in> set (holdings_of reader). set (valid_issns item))"
      by blast
  next
    fix x assume "x \<in> (\<Union>item \<in> set (holdings_of reader). set (valid_issns item))"
    then have "last_listing x (holdings_of reader) \<noteq> None"
      unfolding none by blast
    then show "x \<in> dom (HoldingsMap reader)"
      by (auto simp: eq)
  qed
  have c3: "item \<in> set (holdings_of reader) \<and> tid \<in> set (valid_issns item)"
    if "HoldingsMap reader tid = Some item"
    using that some [of tid "holdings_of reader" item] by (simp add: eq)
  have c4: "HoldingsMap reader tid = Some item"
    if h: "reader = pre @ StartElement ''holding'' item # post
        \<and> tid \<in> set (valid_issns item)
        \<and> (\<forall>later \<in> set (holdings_of post). tid \<notin> set (valid_issns later))"
  proof -
    have app: "holdings_of (xs @ ys) = holdings_of xs @ holdings_of ys" for xs ys
      by (induction xs rule: holdings_of.induct) simp_all
    from h have hs: "holdings_of reader = holdings_of pre @ item # holdings_of post"
      by (simp add: app)
    from h have here: "tid \<in> set (valid_issns item)" by simp
    from h have "filter (\<lambda>item. tid \<in> set (valid_issns item)) (holdings_of post) = []"
      by (simp add: filter_empty_conv)
    with here have "filter (\<lambda>item. tid \<in> set (valid_issns item)) (holdings_of reader)
                   = filter (\<lambda>item. tid \<in> set (valid_issns item)) (holdings_of pre) @ [item]"
      by (simp add: hs)
    then have "last_listing tid (holdings_of reader) = Some item"
      by (simp add: last_listing_alt)
    then show ?thesis by (simp add: eq)
  qed
  from eq [of tid] c2 c3 c4 show ?thesis by blast
qed

theorem HoldingsMap_last_wins_witness:
  "HoldingsMap
     [StartElement ''holding''
        \<lparr>EZBID = 1, Title = ''A'', Publishers = ''P'', PISSN = ['' 1234-5678 '', ''12345678''],
         EISSN = [''1111-2222''], Entitlements = []\<rparr>,
      OtherToken,
      StartElement ''holding''
        \<lparr>EZBID = 2, Title = ''B'', Publishers = ''Q'', PISSN = [''1234-567X''],
         EISSN = [''1234-5678''], Entitlements = []\<rparr>]
     ''1234-5678''
   = Some \<lparr>EZBID = 2, Title = ''B'', Publishers = ''Q'', PISSN = [''1234-567X''],
           EISSN = [''1234-5678''], Entitlements = []\<rparr>
   \<and> HoldingsMap
     [StartElement ''holding''
        \<lparr>EZBID = 1, Title = ''A'', Publishers = ''P'', PISSN = ['' 1234-5678 '', ''12345678''],
         EISSN = [''1111-2222''], Entitlements = []\<rparr>,
      OtherToken,
      StartElement ''holding''
        \<lparr>EZBID = 2, Title = ''B'', Publishers = ''Q'', PISSN = [''1234-567X''],
         EISSN = [''1234-5678''], Entitlements = []\<rparr>]
     ''1234-567X''
   = None"
proof -
  let ?h1 = "\<lparr>EZBID = 1, Title = ''A'', Publishers = ''P'', PISSN = ['' 1234-5678 '', ''12345678''],
         EISSN = [''1111-2222''], Entitlements = []\<rparr>"
  let ?h2 = "\<lparr>EZBID = 2, Title = ''B'', Publishers = ''Q'', PISSN = [''1234-567X''],
         EISSN = [''1234-5678''], Entitlements = []\<rparr>"
  let ?r = "[StartElement ''holding'' ?h1, OtherToken, StartElement ''holding'' ?h2]"
  have v2: "valid_issns ?h2 = [''1234-5678'']"
    by (simp add: valid_issns_def TrimSpace_def IsSpace_def ISSNPattern_def is_digit_def)
  have v1: "valid_issns ?h1 = [''1111-2222'', ''1234-5678'']"
    by (simp add: valid_issns_def TrimSpace_def IsSpace_def ISSNPattern_def is_digit_def)
  have hyp: "?r = [StartElement ''holding'' ?h1, OtherToken] @ StartElement ''holding'' ?h2 # []
        \<and> ''1234-5678'' \<in> set (valid_issns ?h2)
        \<and> (\<forall>later \<in> set (holdings_of []). ''1234-5678'' \<notin> set (valid_issns later))"
    by (simp add: v2)
  have a: "HoldingsMap ?r ''1234-5678'' = Some ?h2"
    using HoldingsMap_last_wins [of ?r "''1234-5678''" ?h2 "[StartElement ''holding'' ?h1, OtherToken]" "[]"] hyp
    by blast
  have b: "HoldingsMap ?r ''1234-567X'' = None"
    using HoldingsMap_last_wins [of ?r "''1234-567X''"]
    by (simp add: last_listing_def v1 v2)
  have c: "?h2 \<in> set (holdings_of ?r) \<and> ''1234-5678'' \<in> set (valid_issns ?h2)"
    using HoldingsMap_last_wins [of ?r "''1234-5678''" ?h2] a by blast
  from a b c show ?thesis by blast
qed

section \<open>Properties of the filters and the tagger\<close>

lemma CoveredAndValid_loop_iff:
  "CoveredAndValid_loop covers wall ref signature ls \<longleftrightarrow>
     (\<exists>l \<in> set ls. covers l signature \<and> After ref (wall l ref))"
  by (induction ls) auto

lemma CoveredAndValid_iff:
  "CoveredAndValid covers wall f signature issn \<longleftrightarrow>
     (\<exists>ls. Table f issn = Some ls \<and> (\<exists>l \<in> set ls. covers l signature \<and> After (Ref f) (wall l (Ref f))))"
  by (simp add: CoveredAndValid_def CoveredAndValid_loop_iff split: option.splits)

text \<open>
  C4. The holdings filter is fail-closed. \<open>CoveredAndValid\<close> is false for every signature
  when the ISSN has no entry in the table; and \<open>HoldingFilter.Apply\<close> is false when no
  ISSN or e-ISSN of the record has, in the table, a license that covers the signature of
  the record and whose wall lies before the reference time.
\<close>

theorem HoldingFilter_fail_closed:
  "(Table f issn = None \<longrightarrow> \<not> CoveredAndValid covers wall f signature issn)
   \<and> ((\<forall>issn \<in> set (ISSN is @ EISSN is). \<forall>ls. Table f issn = Some ls \<longrightarrow>
          (\<forall>l \<in> set ls. \<not> (covers l (CombineDatum (Sprintf_d (Date_Year is)) (Volume is) (Issue is) [])
                              \<and> After (Ref f) (wall l (Ref f)))))
        \<longrightarrow> \<not> HoldingFilter_Apply covers wall f is)
   \<and> (HoldingFilter_Apply covers wall f is \<longleftrightarrow>
        (\<exists>issn \<in> set (ISSN is @ EISSN is). \<exists>ls. Table f issn = Some ls \<and>
           (\<exists>l \<in> set ls. covers l (CombineDatum (Sprintf_d (Date_Year is)) (Volume is) (Issue is) [])
                             \<and> After (Ref f) (wall l (Ref f)))))"
proof (intro conjI impI)
  show "HoldingFilter_Apply covers wall f is \<longleftrightarrow>
        (\<exists>issn \<in> set (ISSN is @ EISSN is). \<exists>ls. Table f issn = Some ls \<and>
           (\<exists>l \<in> set ls. covers l (CombineDatum (Sprintf_d (Date_Year is)) (Volume is) (Issue is) [])
                             \<and> After (Ref f) (wall l (Ref f))))"
    by (simp add: HoldingFilter_Apply_def Let_def list_ex_iff CoveredAndValid_iff)
next
  assume "Table f issn = None"
  then show "\<not> CoveredAndValid covers wall f signature issn"
    by (simp add: CoveredAndValid_def)
next
  assume h: "\<forall>issn \<in> set (ISSN is @ EISSN is). \<forall>ls. Table f issn = Some ls \<longrightarrow>
          (\<forall>l \<in> set ls. \<not> (covers l (CombineDatum (Sprintf_d (Date_Year is)) (Volume is) (Issue is) [])
                              \<and> After (Ref f) (wall l (Ref f))))"
  show "\<not> HoldingFilter_Apply covers wall f is"
  proof
    assume "HoldingFilter_Apply covers wall f is"
    then obtain issn where i: "issn \<in> set (ISSN is @ EISSN is)"
      and c: "CoveredAndValid covers wall f
                (CombineDatum (Sprintf_d (Date_Year is)) (Volume is) (Issue is) []) issn"
      by (auto simp: HoldingFilter_Apply_def Let_def list_ex_iff)
    from c obtain ls l where "Table f issn = Some ls" "l \<in> set ls"
      "covers l (CombineDatum (Sprintf_d (Date_Year is)) (Volume is) (Issue is) [])"
      "After (Ref f) (wall l (Ref f))"
      unfolding CoveredAndValid_iff by blast
    with h i show False by blast
  qed
qed

theorem HoldingFilter_fail_closed_witness:
  "\<not> CoveredAndValid (\<lambda>l s. True) (\<lambda>l t. t - 1)
       \<lparr>Ref = 100, Table = [''1234-5678'' \<mapsto> [()]]\<rparr> ''2010000010000005'' ''8765-4321''
   \<and> \<not> HoldingFilter_Apply (\<lambda>l s. True) (\<lambda>l t. t - 1)
       \<lparr>Ref = 100, Table = [''1234-5678'' \<mapsto> [()]]\<rparr>
       \<lparr>ISSN = [''8765-4321''], EISSN = [''0000-0001''], Date_Year = 2010,
        Volume = ''10'', Issue = ''5'', SourceID = ''49''\<rparr>"
  using HoldingFilter_fail_closed [of "\<lparr>Ref = 100, Table = [''1234-5678'' \<mapsto> [()]]\<rparr>" "''8765-4321''"
      "\<lambda>l s. True" "\<lambda>l t. t - 1" "''2010000010000005''"
      "\<lparr>ISSN = [''8765-4321''], EISSN = [''0000-0001''], Date_Year = 2010,
        Volume = ''10'', Issue = ''5'', SourceID = ''49''\<rparr>"]
  by simp

lemma Tags_filters_set:
  "set (Tags_filters ap isil fs isils) = set isils \<union> (if \<exists>f \<in> set fs. ap f then {isil} else {})"
  by (induction fs arbitrary: isils) (auto simp: Add_def)

lemma Tags_filters_distinct:
  "distinct isils \<Longrightarrow> distinct (Tags_filters ap isil fs isils)"
  by (induction fs arbitrary: isils) (auto simp: Add_def)

lemma Tags_loop_set:
  "set (Tags_loop ap t isils) =
     set isils \<union> {isil. \<exists>fs. (isil, fs) \<in> set t \<and> (\<exists>f \<in> set fs. ap f)}"
proof (induction t arbitrary: isils)
  case Nil
  show ?case by simp
next
  case (Cons p t)
  obtain isil fs where p: "p = (isil, fs)" by (cases p)
  show ?case
    unfolding p Tags_loop.simps Cons.IH Tags_filters_set
    by (cases "\<exists>f \<in> set fs. ap f") (simp_all, blast+)
qed

lemma Tags_loop_distinct:
  "distinct isils \<Longrightarrow> distinct (Tags_loop ap t isils)"
  by (induction t arbitrary: isils) (auto simp: Tags_filters_distinct)

lemma Tags_set:
  "set (Tags covers wall t is) =
     {isil. \<exists>fs. (isil, fs) \<in> set t \<and> (\<exists>f \<in> set fs. Apply covers wall f is)}"
  by (simp add: Tags_def Values_def NewStringSet_def Tags_loop_set)

text \<open>
  C8. The values of \<open>Tags\<close> are exactly the institutions with at least one filter that
  accepts the record, each once. They are the same for every order in which the entries
  of the tagger are visited. An institution whose filters all reject the record (none
  at all included) is not among them.
\<close>

theorem Tags_exact:
  "set (Tags covers wall t is) =
     {isil. \<exists>fs. (isil, fs) \<in> set t \<and> (\<exists>f \<in> set fs. Apply covers wall f is)}
   \<and> distinct (Tags covers wall t is)
   \<and> (set t' = set t \<longrightarrow> set (Tags covers wall t' is) = set (Tags covers wall t is))
   \<and> (distinct (map fst t) \<and> (isil, fs) \<in> set t \<and> (\<forall>f \<in> set fs. \<not> Apply covers wall f is)
        \<longrightarrow> isil \<notin> set (Tags covers wall t is))"
proof (intro conjI impI)
  show "set (Tags covers wall t is) =
     {isil. \<exists>fs. (isil, fs) \<in> set t \<and> (\<exists>f \<in> set fs. Apply covers wall f is)}"
    by (rule Tags_set)
  show "distinct (Tags covers wall t is)"
    by (simp add: Tags_def Values_def NewStringSet_def Tags_loop_distinct)
  show "set (Tags covers wall t' is) = set (Tags covers wall t is)" if "set t' = set t"
    using that by (simp add: Tags_set)
  show "isil \<notin> set (Tags covers wall t is)"
    if h: "distinct (map fst t) \<and> (isil, fs) \<in> set t \<and> (\<forall>f \<in> set fs. \<not> Apply covers wall f is)"
  proof
    assume "isil \<in> set (Tags covers wall t is)"
    then obtain fs' where m: "(isil, fs') \<in> set t" and a: "\<exists>f \<in> set fs'. Apply covers wall f is"
      unfolding Tags_set by blast
    from h m have "fs' = fs"
      using eq_key_imp_eq_value [of t isil fs' fs] by blast
    with a h show False by blast
  qed
qed

theorem Tags_exact_witness:
  "''DE-15'' \<in> set (Tags (\<lambda>l s. True) (\<lambda>l t. t - 1)
       [(''DE-15'', [SourceFilter ''50'', Any :: unit Filter]), (''DE-14'', [SourceFilter ''50'']), (''DE-1'', [])]
       \<lparr>ISSN = [''8765-4321''], EISSN = [], Date_Year = 2010, Volume = ''10'', Issue = ''5'', SourceID = ''49''\<rparr>)
   \<and> ''DE-14'' \<notin> set (Tags (\<lambda>l s. True) (\<lambda>l t. t - 1)
       [(''DE-15'', [SourceFilter ''50'', Any :: unit Filter]), (''DE-14'', [SourceFilter ''50'']), (''DE-1'', [])]
       \<lparr>ISSN = [''8765-4321''], EISSN = [], Date_Year = 2010, Volume = ''10'', Issue = ''5'', SourceID = ''49''\<rparr>)
   \<and> ''DE-1'' \<notin> set (Tags (\<lambda>l s. True) (\<lambda>l t. t - 1)
       [(''DE-15'', [SourceFilter ''50'', Any :: unit Filter]), (''DE-14'', [SourceFilter ''50'']), (''DE-1'', [])]
       \<lparr>ISSN = [''8765-4321''], EISSN = [], Date_Year = 2010, Volume = ''10'', Issue = ''5'', SourceID = ''49''\<rparr>)
   \<and> set (Tags (\<lambda>l s. True) (\<lambda>l t. t - 1)
       [(''DE-1'', []), (''DE-14'', [SourceFilter ''50'']), (''DE-15'', [SourceFilter ''50'', Any :: unit Filter])]
       \<lparr>ISSN = [''8765-4321''], EISSN = [], Date_Year = 2010, Volume = ''10'', Issue = ''5'', SourceID = ''49''\<rparr>)
     = set (Tags (\<lambda>l s. True) (\<lambda>l t. t - 1)
       [(''DE-15'', [SourceFilter ''50'', Any :: unit Filter]), (''DE-14'', [SourceFilter ''50'']), (''DE-1'', [])]
       \<lparr>ISSN = [''8765-4321''], EISSN = [], Date_Year = 2010, Volume = ''10'', Issue = ''5'', SourceID = ''49''\<rparr>)"
proof -
  let ?t = "[(''DE-15'', [SourceFilter ''50'', Any :: unit Filter]), (''DE-14'', [SourceFilter ''50'']), (''DE-1'', [])]"
  let ?t' = "[(''DE-1'', []), (''DE-14'', [SourceFilter ''50'']), (''DE-15'', [SourceFilter ''50'', Any :: unit Filter])]"
  let ?is = "\<lparr>ISSN = [''8765-4321''], EISSN = [], Date_Year = 2010, Volume = ''10'', Issue = ''5'', SourceID = ''49''\<rparr>"
  have perm: "set ?t' = set ?t" by auto
  have keys: "distinct (map fst ?t)" by simp
  note a = Tags_exact [of "\<lambda>l s. True" "\<lambda>l t. t - 1" ?t ?is ?t' "''DE-14''" "[SourceFilter ''50'']"]
  note b = Tags_exact [of "\<lambda>l s. True" "\<lambda>l t. t - 1" ?t ?is ?t' "''DE-1''" "[]"]
  have 1: "''DE-15'' \<in> set (Tags (\<lambda>l s. True) (\<lambda>l t. t - 1) ?t ?is)"
    using a by simp
  have 2: "''DE-14'' \<notin> set (Tags (\<lambda>l s. True) (\<lambda>l t. t - 1) ?t ?is)"
    using a keys by simp
  have 3: "''DE-1'' \<notin> set (Tags (\<lambda>l s. True) (\<lambda>l t. t - 1) ?t ?is)"
    using b keys by simp
  have 4: "set (Tags (\<lambda>l s. True) (\<lambda>l t. t - 1) ?t' ?is) = set (Tags (\<lambda>l s. True) (\<lambda>l t. t - 1) ?t ?is)"
    using a perm by blast
  from 1 2 3 4 show ?thesis by blast
qed

section \<open>The datum preserves the order\<close>

lemma digit_char:
  assumes "is_digit c"
  shows "digit_val c \<le> 9" and "(of_char c :: nat) = 48 + digit_val c"
  using assms by (auto simp: is_digit_def digit_val_def)

lemma digit_val_inj:
  "is_digit a \<Longrightarrow> is_digit b \<Longrightarrow> digit_val a = digit_val b \<Longrightarrow> a = b"
  by (auto simp: is_digit_def digit_val_def)

lemma decimal_acc: "decimal n s = n * 10 ^ length s + decimal 0 s"
proof (induction s arbitrary: n)
  case Nil
  show ?case by simp
next
  case (Cons c cs)
  show ?case
    using Cons.IH [of "n * 10 + digit_val c"] Cons.IH [of "digit_val c"]
    by (simp add: algebra_simps)
qed

lemma decimal_bound: "list_all is_digit s \<Longrightarrow> decimal 0 s < 10 ^ length s"
proof (induction s)
  case Nil
  show ?case by simp
next
  case (Cons c cs)
  then have d: "digit_val c \<le> 9" and b: "decimal 0 cs < 10 ^ length cs"
    by (simp_all add: digit_char)
  have "decimal 0 (c # cs) = digit_val c * 10 ^ length cs + decimal 0 cs"
    using decimal_acc [of "digit_val c" cs] by simp
  also have "\<dots> < 9 * 10 ^ length cs + 10 ^ length cs"
    using d b by (intro add_le_less_mono mult_le_mono1)
  finally show ?case by simp
qed

lemma lex_step:
  fixes a b x y k :: nat
  assumes "x < k" "y < k"
  shows "a * k + x < b * k + y \<longleftrightarrow> a < b \<or> (a = b \<and> x < y)"
proof (cases a b rule: linorder_cases)
  case less
  then have "Suc a \<le> b" by simp
  then have "Suc a * k \<le> b * k" by (rule mult_le_mono1)
  with assms less show ?thesis by simp
next
  case equal
  then show ?thesis by simp
next
  case greater
  then have "Suc b \<le> a" by simp
  then have "Suc b * k \<le> a * k" by (rule mult_le_mono1)
  with assms greater show ?thesis by simp
qed

lemma lex_step_eq:
  fixes a b x y k :: nat
  assumes "x < k" "y < k"
  shows "a * k + x = b * k + y \<longleftrightarrow> a = b \<and> x = y"
  using lex_step [OF assms, of a b] lex_step [OF assms(2) assms(1), of b a]
  by (metis less_irrefl_nat linorder_neqE_nat)

lemma digits_order:
  assumes "length a = length b" "list_all is_digit a" "list_all is_digit b"
  shows "(string_less a b \<longleftrightarrow> decimal 0 a < decimal 0 b) \<and> (a = b \<longleftrightarrow> decimal 0 a = decimal 0 b)"
  using assms
proof (induction a b rule: list_induct2)
  case Nil
  show ?case by simp
next
  case (Cons x xs y ys)
  then have dx: "is_digit x" and dy: "is_digit y"
    and bx: "decimal 0 xs < 10 ^ length xs" and by': "decimal 0 ys < 10 ^ length xs"
    and IH: "string_less xs ys \<longleftrightarrow> decimal 0 xs < decimal 0 ys" "xs = ys \<longleftrightarrow> decimal 0 xs = decimal 0 ys"
    using decimal_bound [of xs] decimal_bound [of ys] by simp_all
  have ex: "decimal 0 (x # xs) = digit_val x * 10 ^ length xs + decimal 0 xs"
    using decimal_acc [of "digit_val x" xs] by simp
  have ey: "decimal 0 (y # ys) = digit_val y * 10 ^ length xs + decimal 0 ys"
    using decimal_acc [of "digit_val y" ys] Cons.hyps by simp
  have c: "(of_char x :: nat) < of_char y \<longleftrightarrow> digit_val x < digit_val y"
    using digit_char(2) [OF dx] digit_char(2) [OF dy] by simp
  have e: "x = y \<longleftrightarrow> digit_val x = digit_val y"
    using digit_val_inj [OF dx dy] by blast
  have "string_less (x # xs) (y # ys) \<longleftrightarrow> decimal 0 (x # xs) < decimal 0 (y # ys)"
    unfolding ex ey string_less.simps lex_step [OF bx by'] c IH(1) e ..
  moreover have "x # xs = y # ys \<longleftrightarrow> decimal 0 (x # xs) = decimal 0 (y # ys)"
    unfolding ex ey lex_step_eq [OF bx by'] using e IH(2) by simp
  ultimately show ?case ..
qed

lemma string_less_append:
  "length a1 = length a2 \<Longrightarrow>
   string_less (a1 @ b1) (a2 @ b2) \<longleftrightarrow> string_less a1 a2 \<or> (a1 = a2 \<and> string_less b1 b2)"
proof (induction a1 a2 rule: list_induct2)
  case Nil
  show ?case by simp
next
  case (Cons x xs y ys)
  then show ?case by auto
qed

lemma padString_digits:
  assumes "length s \<le> w" "list_all is_digit s"
  shows "length (padString (int w) s) = w"
    and "list_all is_digit (padString (int w) s)"
    and "decimal 0 (padString (int w) s) = decimal 0 s"
proof -
  have p: "padString (int w) s = replicate (w - length s) CHR ''0'' @ s"
    using assms(1) by (auto simp: padString_def writePadding_def nat_diff_distrib')
  show "length (padString (int w) s) = w"
    using assms(1) by (simp add: p)
  have "is_digit CHR ''0''" by (simp add: is_digit_def)
  then show "list_all is_digit (padString (int w) s)"
    using assms(2) by (auto simp: p list_all_iff)
  have z: "decimal 0 (replicate k CHR ''0'' @ t) = decimal 0 t" for k t
    by (induction k) (simp_all add: digit_val_def)
  show "decimal 0 (padString (int w) s) = decimal 0 s"
    by (simp add: p z)
qed

text \<open>
  C6. For years, volumes and issues that are strings of decimal digits no longer than
  4, 6 and 6, one datum made with the empty sentinel is smaller than another as a
  string exactly when its (year, volume, issue) is smaller as a triple of numbers.
\<close>

theorem CombineDatum_order:
  assumes "list_all is_digit y1" "list_all is_digit v1" "list_all is_digit i1"
    and "list_all is_digit y2" "list_all is_digit v2" "list_all is_digit i2"
    and "length y1 \<le> 4" "length v1 \<le> 6" "length i1 \<le> 6"
    and "length y2 \<le> 4" "length v2 \<le> 6" "length i2 \<le> 6"
  shows "string_less (CombineDatum y1 v1 i1 []) (CombineDatum y2 v2 i2 []) \<longleftrightarrow>
         datum_less (decimal 0 y1, decimal 0 v1, decimal 0 i1) (decimal 0 y2, decimal 0 v2, decimal 0 i2)"
proof -
  note py1 = padString_digits [of y1 4, simplified, OF assms(7) assms(1)]
  note py2 = padString_digits [of y2 4, simplified, OF assms(10) assms(4)]
  note pv1 = padString_digits [of v1 6, simplified, OF assms(8) assms(2)]
  note pv2 = padString_digits [of v2 6, simplified, OF assms(11) assms(5)]
  note pi1 = padString_digits [of i1 6, simplified, OF assms(9) assms(3)]
  note pi2 = padString_digits [of i2 6, simplified, OF assms(12) assms(6)]
  have oy: "(string_less (padString 4 y1) (padString 4 y2) \<longleftrightarrow> decimal 0 y1 < decimal 0 y2)
            \<and> (padString 4 y1 = padString 4 y2 \<longleftrightarrow> decimal 0 y1 = decimal 0 y2)"
    using digits_order [of "padString 4 y1" "padString 4 y2"] py1 py2 by simp
  have ov: "(string_less (padString 6 v1) (padString 6 v2) \<longleftrightarrow> decimal 0 v1 < decimal 0 v2)
            \<and> (padString 6 v1 = padString 6 v2 \<longleftrightarrow> decimal 0 v1 = decimal 0 v2)"
    using digits_order [of "padString 6 v1" "padString 6 v2"] pv1 pv2 by simp
  have oi: "string_less (padString 6 i1) (padString 6 i2) \<longleftrightarrow> decimal 0 i1 < decimal 0 i2"
    using digits_order [of "padString 6 i1" "padString 6 i2"] pi1 pi2 by simp
  have "string_less (CombineDatum y1 v1 i1 []) (CombineDatum y2 v2 i2 []) \<longleftrightarrow>
        string_less (padString 4 y1) (padString 4 y2)
        \<or> (padString 4 y1 = padString 4 y2
            \<and> (string_less (padString 6 v1) (padString 6 v2)
                \<or> (padString 6 v1 = padString 6 v2
                    \<and> string_less (padString 6 i1) (padString 6 i2))))"
    using py1(1) py2(1) pv1(1) pv2(1)
    by (simp add: CombineDatum_def string_less_append)
  then show ?thesis
    using oy ov oi by (simp add: datum_less_def)
qed

theorem CombineDatum_order_witness:
  "string_less (CombineDatum ''2010'' ''9'' ''12'' []) (CombineDatum ''2010'' ''10'' ''5'' [])
   \<and> \<not> string_less (CombineDatum ''2010'' ''10'' ''5'' []) (CombineDatum ''2010'' ''9'' ''12'' [])"
proof -
  have d: "list_all is_digit ''2010''" "list_all is_digit ''9''" "list_all is_digit ''12''"
    "list_all is_digit ''10''" "list_all is_digit ''5''"
    by (simp_all add: is_digit_def)
  have l: "length ''2010'' \<le> 4" "length ''9'' \<le> 6" "length ''12'' \<le> 6" "length ''10'' \<le> 6"
    "length ''5'' \<le> 6"
    by simp_all
  have a: "datum_less (decimal 0 ''2010'', decimal 0 ''9'', decimal 0 ''12'')
                      (decimal 0 ''2010'', decimal 0 ''10'', decimal 0 ''5'')"
    by (simp add: datum_less_def digit_val_def)
  have b: "\<not> datum_less (decimal 0 ''2010'', decimal 0 ''10'', decimal 0 ''5'')
                        (decimal 0 ''2010'', decimal 0 ''9'', decimal 0 ''12'')"
    by (simp add: datum_less_def digit_val_def)
  show ?thesis
    using a b
      CombineDatum_order [OF d(1) d(2) d(3) d(1) d(4) d(5) l(1) l(2) l(3) l(1) l(4) l(5)]
      CombineDatum_order [OF d(1) d(4) d(5) d(1) d(2) d(3) l(1) l(4) l(5) l(1) l(2) l(3)]
    by blast
qed

section \<open>Properties of the reader and the pipeline\<close>

lemma split_line_shorter: "split_line s = Some (l, rest) \<Longrightarrow> length rest < length s"
  by (induction s arbitrary: l) (auto split: if_splits option.splits)


lemma lines_from_split:
  "lines_from cur s =
     (case split_line s of None \<Rightarrow> [] | Some (l, rest) \<Rightarrow> (cur @ l) # lines_from [] rest)"
  by (induction s arbitrary: cur) (auto split: option.splits)

lemma input_lines_split:
  "input_lines s = (case split_line s of None \<Rightarrow> [] | Some (l, rest) \<Rightarrow> l # input_lines rest)"
  using lines_from_split [of "[]" s] by (simp add: input_lines_def split: option.splits)

lemma read_loop_EOF:
  "read_loop B \<lparr>content = s, ending = EOF\<rparr> i batch sent =
     (case split_line s of
        None \<Rightarrow> (sent @ [batch], None)
      | Some (l, rest) \<Rightarrow>
          if i = B then read_loop B \<lparr>content = rest, ending = EOF\<rparr> 2 [] (sent @ [batch @ [l]])
          else read_loop B \<lparr>content = rest, ending = EOF\<rparr> (i + 1) (batch @ [l]) sent)"
  by (subst read_loop.simps) (simp add: ReadString_def split: option.splits)


lemma read_loop_concat:
  "\<exists>bs. read_loop B \<lparr>content = s, ending = EOF\<rparr> i batch sent = (bs, None)
        \<and> concat bs = concat sent @ batch @ input_lines s"
proof (induction "length s" arbitrary: s i batch sent rule: less_induct)
  case less
  show ?case
  proof (cases "split_line s")
    case None
    then show ?thesis
      by (simp add: read_loop_EOF [of B s] input_lines_split [of s])
  next
    case (Some p)
    obtain l rest where p: "p = (l, rest)" by (cases p)
    from Some p have sh: "length rest < length s" by (simp add: split_line_shorter)
    show ?thesis
    proof (cases "i = B")
      case True
      from less.hyps [OF sh, of 2 "[]" "sent @ [batch @ [l]]"] Some p True show ?thesis
        by (simp add: read_loop_EOF [of B s] input_lines_split [of s])
    next
      case False
      from less.hyps [OF sh, of "i + 1" "batch @ [l]" sent] Some p False show ?thesis
        by (simp add: read_loop_EOF [of B s] input_lines_split [of s])
    qed
  qed
qed

lemma reader_batches_concat:
  assumes "0 \<le> BatchSize options"
  shows "\<exists>bs. reader_batches options \<lparr>content = s, ending = EOF\<rparr> = (bs, None)
          \<and> bs \<noteq> []
          \<and> concat bs = replicate (nat (BatchSize options)) [] @ input_lines s"
proof -
  obtain bs where b: "read_loop (BatchSize options) \<lparr>content = s, ending = EOF\<rparr> 1
                        (replicate (nat (BatchSize options)) []) [] = (bs, None)"
      and c: "concat bs = concat [] @ replicate (nat (BatchSize options)) [] @ input_lines s"
    using read_loop_concat [of "BatchSize options" s 1 "replicate (nat (BatchSize options)) []" "[]"]
    by blast
  have ne: "fst (read_loop B \<lparr>content = s, ending = EOF\<rparr> i batch sent) \<noteq> []" for B s i batch sent
  proof (induction "length s" arbitrary: s i batch sent rule: less_induct)
    case less
    show ?case
    proof (cases "split_line s")
      case None
      then show ?thesis by (simp add: read_loop_EOF [of B s])
    next
      case (Some p)
      obtain l rest where p: "p = (l, rest)" by (cases p)
      from Some p have sh: "length rest < length s" by (simp add: split_line_shorter)
      from less.hyps [OF sh] Some p show ?thesis
        by (simp add: read_loop_EOF [of B s])
    qed
  qed
  from ne [of "BatchSize options" s 1 "replicate (nat (BatchSize options)) []" "[]"] b
  have "bs \<noteq> []" by simp
  with assms b c show ?thesis
    by (simp add: reader_batches_def)
qed

text \<open>
  The batches of \<open>reader_batches\<close> are what the slices hold when they are handed off.
\<close>

lemma append_slice_view:
  assumes "slice_ok h s" "append_slice grow s x h = (s', h')"
  shows "slice_ok h' s' \<and> view h' s' = view h s @ [x]"
proof (cases "len s < cap s")
  case True
  with assms show ?thesis
    by (auto simp: append_slice_def slice_ok_def view_def take_Suc_conv_app_nth)
next
  case False
  with assms show ?thesis
    by (auto simp: append_slice_def slice_ok_def view_def Let_def)
qed

lemma read_loop_store_refines:
  assumes "slice_ok h batch"
  shows "sent_views (read_loop_store grow B r i batch h sent)
           = fst (read_loop B r i (view h batch) (map snd sent))
         \<and> snd (snd (read_loop_store grow B r i batch h sent))
           = snd (read_loop B r i (view h batch) (map snd sent))"
  using assms
proof (induction grow B r i batch h sent rule: read_loop_store.induct)
  case (1 grow B r i batch h sent)
  obtain line err r' where rs: "ReadString r = (line, err, r')"
    by (cases "ReadString r") auto
  show ?case
  proof (cases "err = None")
    case False
    have L: "read_loop_store grow B r i batch h sent =
               (if err = Some EOF then (sent @ [(batch, view h batch)], h, None) else (sent, h, err))"
      using False by (subst read_loop_store.simps) (simp add: rs)
    have R: "read_loop B r i (view h batch) (map snd sent) =
               (if err = Some EOF then (map snd sent @ [view h batch], None) else (map snd sent, err))"
      using False by (subst read_loop.simps) (simp add: rs)
    show ?thesis
      by (simp add: L R sent_views_def)
  next
    case True
    obtain batch' h' where ap: "append_slice grow batch line h = (batch', h')"
      by (cases "append_slice grow batch line h") auto
    from append_slice_view [OF "1.prems" ap]
    have ok: "slice_ok h' batch'" and v: "view h' batch' = view h batch @ [line]"
      by simp_all
    have ne: "err \<noteq> Some EOF" "\<not> err \<noteq> None"
      using True by simp_all
    show ?thesis
    proof (cases "i = B")
      case eq: True
      have ok0: "slice_ok h' (batch'\<lparr>len := 0\<rparr>)"
        using ok by (simp add: slice_ok_def)
      have v0: "view h' (batch'\<lparr>len := 0\<rparr>) = []"
        by (simp add: view_def)
      have L: "read_loop_store grow B r i batch h sent =
                 read_loop_store grow B r' 2 (batch'\<lparr>len := 0\<rparr>) h' (sent @ [(batch', view h' batch')])"
        using True eq by (subst read_loop_store.simps) (simp add: rs ap)
      have R: "read_loop B r i (view h batch) (map snd sent) =
                 read_loop B r' 2 [] (map snd sent @ [view h batch @ [line]])"
        using True eq by (subst read_loop.simps) (simp add: rs)
      from "1.IH"(1) [OF rs [symmetric] refl ne ap [symmetric] eq ok0]
      show ?thesis
        by (simp add: L R v v0)
    next
      case neq: False
      have L: "read_loop_store grow B r i batch h sent =
                 read_loop_store grow B r' (i + 1) batch' h' sent"
        using True neq by (subst read_loop_store.simps) (simp add: rs ap)
      have R: "read_loop B r i (view h batch) (map snd sent) =
                 read_loop B r' (i + 1) (view h batch @ [line]) (map snd sent)"
        using True neq by (subst read_loop.simps) (simp add: rs)
      from "1.IH"(2) [OF rs [symmetric] refl ne ap [symmetric] neq ok]
      show ?thesis
        by (simp add: L R v)
    qed
  qed
qed

lemma reader_store_refines:
  assumes "0 \<le> BatchSize options"
  shows "sent_views (reader_store grow (nat (BatchSize options)) r) = fst (reader_batches options r)"
proof -
  let ?n = "nat (BatchSize options)"
  obtain b h where m: "make_slice ?n \<lparr>arrays = (\<lambda>p. []), fresh = 0\<rparr> = (b, h)"
    by (cases "make_slice ?n \<lparr>arrays = (\<lambda>p. []), fresh = 0\<rparr>") auto
  have ok: "slice_ok h b" and v: "view h b = replicate ?n []"
    using m by (auto simp: make_slice_def slice_ok_def view_def)
  from read_loop_store_refines [OF ok, of grow "BatchSize options" r 1 "[]"] assms
  show ?thesis
    by (simp add: reader_store_def reader_batches_def v m)
qed

text \<open>
  What a slice holds later is another matter, since the reader goes on writing into the
  array it has handed off. With batch size 1 and the lines a, b, c the first batch is
  the empty string and a when it is sent, and b and c once the reader has finished.
\<close>

lemma shared_array_example:
  "sent_views (reader_store (\<lambda>c. 2 * c) 1 \<lparr>content = ''a\<newline>b\<newline>c\<newline>'', ending = EOF\<rparr>)
     = [[[], ''a\<newline>''], [''b\<newline>'', ''c\<newline>'']]
   \<and> late_views (reader_store (\<lambda>c. 2 * c) 1 \<lparr>content = ''a\<newline>b\<newline>c\<newline>'', ending = EOF\<rparr>)
     = [[''b\<newline>'', ''c\<newline>''], [''b\<newline>'', ''c\<newline>'']]"
  by code_simp

text \<open>
  What the run computes on an input that ends with \<open>EOF\<close>, with at least one worker: the
  body of the worker on as many empty strings as the batch size says, and then on the
  lines of the input.
\<close>

lemma BatchedLDJProcessor_by_lines:
  assumes "0 \<le> BatchSize options" "0 < NumWorkers options"
  shows "BatchedLDJProcessor X options \<lparr>content = s, ending = EOF\<rparr> =
           (case BatchedLDJWorker X options (replicate (nat (BatchSize options)) [] @ input_lines s) of
              Inl e \<Rightarrow> Inl e
            | Inr docs \<Rightarrow> Inr (ByteSliceCollector docs))"
proof -
  obtain bs where "reader_batches options \<lparr>content = s, ending = EOF\<rparr> = (bs, None)"
    "concat bs = replicate (nat (BatchSize options)) [] @ input_lines s"
    using reader_batches_concat [OF assms(1), of s] by blast
  with assms(2) show ?thesis
    by (simp add: BatchedLDJProcessor_def)
qed


text \<open>Without a worker the run ends in the deadlock of the first handoff.\<close>

lemma no_worker_deadlock:
  assumes "0 \<le> BatchSize options" "NumWorkers options \<le> 0"
  shows "BatchedLDJProcessor X options \<lparr>content = s, ending = EOF\<rparr> = Inl Deadlock"
proof -
  obtain bs where "reader_batches options \<lparr>content = s, ending = EOF\<rparr> = (bs, None)" "bs \<noteq> []"
    using reader_batches_concat [OF assms(1), of s] by blast
  with assms(2) show ?thesis
    by (simp add: BatchedLDJProcessor_def)
qed

lemma BatchedLDJWorker_append:
  "BatchedLDJWorker X options (xs @ ys) =
     (case BatchedLDJWorker X options xs of
        Inl e \<Rightarrow> Inl e
      | Inr a \<Rightarrow> (case BatchedLDJWorker X options ys of Inl e \<Rightarrow> Inl e | Inr b \<Rightarrow> Inr (a @ b)))"
  by (induction xs) (auto split: sum.splits)

lemma worker_skips_failed_line:
  assumes "snd (ToSolrSchema X (Unmarshal X line))" "IgnoreErrors options"
  shows "BatchedLDJWorker X options (pre @ line # post) = BatchedLDJWorker X options (pre @ post)"
proof -
  have "worker_line X options line = Inr []"
    using assms by (cases "ToSolrSchema X (Unmarshal X line)") (simp add: worker_line_def)
  then have "BatchedLDJWorker X options (line # post) = BatchedLDJWorker X options post"
    by (simp split: sum.splits)
  then show ?thesis
    by (simp only: BatchedLDJWorker_append)
qed

text \<open>
  C1 on the input with no line at all, with batch size 2, one worker and errors not
  ignored: the only batch handed off holds the two empty strings that \<open>make\<close> put there,
  and the worker treats each as a line. The run writes two records (or stops on the
  failure of \<open>Marshal\<close>), where the sequential reference writes nothing.
\<close>

theorem BatchedLDJProcessor_empty_input:
  "BatchedLDJProcessor X
     \<lparr>Holdings = h, IgnoreErrors = False, Verbose = v, NumWorkers = 1, BatchSize = 2\<rparr>
     \<lparr>content = [], ending = EOF\<rparr>
   = (case Marshal X (SetTags X (fst (ToSolrSchema X (Unmarshal X [])))
                        (Institutions X (Unmarshal X []) h)) of
        Inl e \<Rightarrow> Inl e
      | Inr b \<Rightarrow> Inr (b @ ''\<newline>'' @ b @ ''\<newline>''))
   \<and> sequential X \<lparr>Holdings = h, IgnoreErrors = False, Verbose = v, NumWorkers = 1, BatchSize = 2\<rparr> []
       = Inr []"
proof -
  let ?o = "\<lparr>Holdings = h, IgnoreErrors = False, Verbose = v, NumWorkers = 1, BatchSize = 2\<rparr>"
  have r: "reader_batches ?o \<lparr>content = [], ending = EOF\<rparr> = ([[[], []]], None)"
    by (simp add: reader_batches_def read_loop.simps ReadString_def eval_nat_numeral)
  have w: "worker_line X ?o [] =
             (case Marshal X (SetTags X (fst (ToSolrSchema X (Unmarshal X [])))
                        (Institutions X (Unmarshal X []) h)) of
                Inl e \<Rightarrow> Inl e | Inr b \<Rightarrow> Inr [b])"
    by (simp add: worker_line_def Let_def split: prod.splits)
  have p: "BatchedLDJProcessor X ?o \<lparr>content = [], ending = EOF\<rparr>
             = (case Marshal X (SetTags X (fst (ToSolrSchema X (Unmarshal X [])))
                        (Institutions X (Unmarshal X []) h)) of
                  Inl e \<Rightarrow> Inl e
                | Inr b \<Rightarrow> Inr (b @ ''\<newline>'' @ b @ ''\<newline>''))"
    by (simp add: BatchedLDJProcessor_def r w ByteSliceCollector_def split: sum.splits)
  have q: "sequential X ?o [] = Inr []"
    by (simp add: sequential_def input_lines_def ByteSliceCollector_def)
  from p q show ?thesis by (rule conjI)
qed

text \<open>
  C2 on three lines with batch size 2: the first batch handed off starts with two empty
  strings that are no lines of the input, and the batch after it holds one line, not two.
\<close>

theorem reader_batches_failing_input:
  "reader_batches \<lparr>Holdings = (), IgnoreErrors = False, Verbose = False, NumWorkers = 1, BatchSize = 2\<rparr>
     \<lparr>content = ''a\<newline>b\<newline>c\<newline>'', ending = EOF\<rparr>
   = ([[[], [], ''a\<newline>'', ''b\<newline>''], [''c\<newline>''], []], None)"
  by (simp add: reader_batches_def read_loop.simps ReadString_def eval_nat_numeral)






end
